theory Spec2Isabelle
  imports Main "HOL-Library.Finite_Map"
begin

section \<open>JavaScript values\<close>

text \<open>
  The values that flow through a schema of \<^verbatim>\<open>schema.js\<close>: the primitives, arrays and plain
  objects. Numbers are the integers (no fractions, no NaN); an object is a finite map
  from its own property names to values, so two objects are equal when they have the same
  properties with the same values, whatever the order the properties were written in
  (the equality of \<^verbatim>\<open>t.deepEqual\<close> in \<^verbatim>\<open>schema.test.js\<close>). Properties inherited from a
  prototype and functions as values are not represented.
\<close>

datatype jsval =
    Undefined
  | Null
  | Bool bool
  | Num int
  | Str string
  | Arr "jsval list"
  | Obj "(string, jsval) fmap"

type_synonym obj = "(string, jsval) fmap"

text \<open>
  What an invocation can throw: a \<^verbatim>\<open>TypeError\<close> of the language (a property read on
  \<^verbatim>\<open>undefined\<close>, a spread of something that is not iterable, a call of something that is
  not a function), any value a handler throws itself, and the \<^verbatim>\<open>ValidationError\<close> of
  \<^verbatim>\<open>createValidationError\<close> with its message and its \<^verbatim>\<open>details\<close>.
\<close>

datatype fault =
    TypeError
  | Thrown jsval
  | ValidationError string "obj list"

subsection \<open>Numbers as text\<close>

text \<open>The decimal text of an index and of an integer, as \<^verbatim>\<open>String(n)\<close> gives it.\<close>

definition digit :: "nat \<Rightarrow> char" where
  "digit d = ''0123456789'' ! d"

fun string_of_nat :: "nat \<Rightarrow> string" where
  "string_of_nat n =
     (let low = digit (n mod 10) in if 10 \<le> n then string_of_nat (n div 10) @ [low] else [low])"

declare string_of_nat.simps [simp del]


subsection \<open>Property reads, spread, truthiness\<close>

text \<open>\<^verbatim>\<open>o[k]\<close> on an object's own properties: a missing property reads as \<^verbatim>\<open>undefined\<close>.\<close>

definition own :: "obj \<Rightarrow> string \<Rightarrow> jsval" where
  "own m k = (case fmlookup m k of None \<Rightarrow> Undefined | Some v \<Rightarrow> v)"

text \<open>The index properties \<^verbatim>\<open>"0"\<close>, \<^verbatim>\<open>"1"\<close>, ... of an array or of a string.\<close>

definition indexed :: "jsval list \<Rightarrow> obj" where
  "indexed xs = fmap_of_list (zip (map string_of_nat [0..<length xs]) xs)"

definition chars :: "string \<Rightarrow> jsval list" where
  "chars s = map (\<lambda>c. Str [c]) s"

text \<open>
  Object spread \<^verbatim>\<open>{...x}\<close>: the own enumerable properties of \<^verbatim>\<open>x\<close>; nothing for
  \<^verbatim>\<open>undefined\<close>, \<^verbatim>\<open>null\<close>, a boolean or a number.
\<close>

fun spread :: "jsval \<Rightarrow> obj" where
  "spread (Obj m) = m"
| "spread (Arr xs) = indexed xs"
| "spread (Str s) = indexed (chars s)"
| "spread Undefined = fmempty"
| "spread Null = fmempty"
| "spread (Bool b) = fmempty"
| "spread (Num n) = fmempty"

text \<open>
  \<^verbatim>\<open>x[k]\<close> for a property name \<^verbatim>\<open>k\<close>: a \<^verbatim>\<open>TypeError\<close> on \<^verbatim>\<open>undefined\<close> and
  \<^verbatim>\<open>null\<close>, the own property otherwise (\<^verbatim>\<open>length\<close> and the indices for an array and
  a string).
\<close>

fun js_prop :: "jsval \<Rightarrow> string \<Rightarrow> fault + jsval" where
  "js_prop Undefined k = Inl TypeError"
| "js_prop Null k = Inl TypeError"
| "js_prop (Bool b) k = Inr Undefined"
| "js_prop (Num n) k = Inr Undefined"
| "js_prop (Str s) k =
     Inr (if k = ''length'' then Num (int (length s)) else own (indexed (chars s)) k)"
| "js_prop (Arr xs) k =
     Inr (if k = ''length'' then Num (int (length xs)) else own (indexed xs) k)"
| "js_prop (Obj m) k = Inr (own m k)"

text \<open>\<^verbatim>\<open>Boolean(x)\<close>, and \<^verbatim>\<open>a || b\<close>.\<close>

fun truthy :: "jsval \<Rightarrow> bool" where
  "truthy Undefined = False"
| "truthy Null = False"
| "truthy (Bool b) = b"
| "truthy (Num n) = (n \<noteq> 0)"
| "truthy (Str s) = (s \<noteq> [])"
| "truthy (Arr xs) = True"
| "truthy (Obj m) = True"

definition js_or :: "jsval \<Rightarrow> jsval \<Rightarrow> jsval" where
  "js_or a b = (if truthy a then a else b)"

text \<open>\<^verbatim>\<open>xs.concat(y)\<close>: an array argument is spliced in, anything else is appended.\<close>

fun js_concat :: "jsval list \<Rightarrow> jsval \<Rightarrow> jsval list" where
  "js_concat xs (Arr ys) = xs @ ys"
| "js_concat xs y = xs @ [y]"

section \<open>The handler contract\<close>

text \<open>
  A handler is a function \<^verbatim>\<open>(value, update, error)\<close>. The two callbacks return nothing,
  so all a handler can do with them is call them: what a handler does at a value is the
  sequence of calls it makes, and how it ends. It ends by returning, by throwing, or (an
  \<^verbatim>\<open>async\<close> handler) by returning a promise: then \<open>Awaits pre post f\<close> gives the calls made
  before the handler first suspends, the calls made afterwards, before the promise
  settles, and the fault the promise rejects with, if any. A handler is a function of the
  value alone: it keeps no state between invocations (section 3 of the specification).
\<close>

datatype call =
    Update jsval
  | Error jsval jsval

datatype outcome =
    Returns "call list"
  | Throws "call list" fault
  | Awaits "call list" "call list" "fault option"

type_synonym handler = "jsval \<Rightarrow> outcome"

text \<open>The calls that have been made when the call of the handler returns.\<close>

fun sync_calls :: "outcome \<Rightarrow> call list" where
  "sync_calls (Returns cs) = cs"
| "sync_calls (Throws cs f) = cs"
| "sync_calls (Awaits pre post f) = pre"


section \<open>The pipeline executor\<close>

text \<open>
  The two local bindings of \<^verbatim>\<open>execValidationPipeline\<close>, \<^verbatim>\<open>let value = input\<close> and
  \<^verbatim>\<open>const errors = []\<close>, as a pair: the current value and the errors pushed so far.
\<close>

type_synonym state = "jsval \<times> obj list"

text \<open>
  The object \<^verbatim>\<open>{ valid, value }\<close> that \<^verbatim>\<open>assert\<close> returns, and the object
  \<^verbatim>\<open>{ value, valid, errors }\<close> that the pipeline returns.
\<close>

record checked =
  "value" :: jsval
  valid :: bool

record result = checked +
  errors :: "obj list"

text \<open>
  The closures \<^verbatim>\<open>update\<close> and \<^verbatim>\<open>error\<close> of the pipeline. The error record is
  \<^verbatim>\<open>{ code, path: [], ...context }\<close>: a \<^verbatim>\<open>code\<close> or a \<^verbatim>\<open>path\<close> of the context
  replaces the one written before the spread.
\<close>

fun update :: "jsval \<Rightarrow> state \<Rightarrow> state" where
  "update newValue (value', errors') = (newValue, errors')"

definition make_error :: "jsval \<Rightarrow> jsval \<Rightarrow> obj" where
  "make_error code context' =
     fmupd ''path'' (Arr []) (fmupd ''code'' code fmempty) ++\<^sub>f spread context'"

fun error :: "jsval \<Rightarrow> jsval \<Rightarrow> state \<Rightarrow> state" where
  "error code context' (value', errors') = (value', errors' @ [make_error code context'])"

fun perform :: "call \<Rightarrow> state \<Rightarrow> state" where
  "perform (Update newValue) s = update newValue s"
| "perform (Error code context') s = error code context' s"

text \<open>
  The loop \<^verbatim>\<open>for (const fn of functions) { fn(value, update, error); }\<close>. A handler that
  throws ends the invocation with its fault. A promise that a handler returns is dropped:
  only the calls made before the handler suspended have happened when the next handler is
  called with the current \<^verbatim>\<open>value\<close>.
\<close>

fun run_handlers :: "handler list \<Rightarrow> state \<Rightarrow> fault + state" where
  "run_handlers [] s = Inr s"
| "run_handlers (fn # functions) s =
     (case fn (fst s) of
        Returns cs \<Rightarrow> run_handlers functions (fold perform cs s)
      | Throws cs f \<Rightarrow> Inl f
      | Awaits pre post f \<Rightarrow> run_handlers functions (fold perform pre s))"

text \<open>\<^verbatim>\<open>const valid = !Boolean(errors.length); return { value, valid, errors };\<close>\<close>

definition assemble :: "state \<Rightarrow> result" where
  "assemble s = \<lparr>value = fst s, valid = (\<not> (length (snd s) \<noteq> 0)), errors = snd s\<rparr>"

definition execValidationPipeline :: "handler list \<Rightarrow> jsval \<Rightarrow> fault + result" where
  "execValidationPipeline functions input =
     (case run_handlers functions (input, []) of
        Inl f \<Rightarrow> Inl f
      | Inr s \<Rightarrow> Inr (assemble s))"



section \<open>The schema combinator\<close>

text \<open>
  \<^verbatim>\<open>schema(...fns)\<close> refuses an argument that is not a function; a handler list here holds
  functions only. \<^verbatim>\<open>validate\<close> and \<^verbatim>\<open>validateAsync\<close> build the pipeline of \<^verbatim>\<open>fns\<close> and
  run it on the input.
\<close>

definition validate :: "handler list \<Rightarrow> jsval \<Rightarrow> fault + result" where
  "validate fns input = execValidationPipeline fns input"


definition test :: "handler list \<Rightarrow> jsval \<Rightarrow> fault + bool" where
  "test fns input = (case validate fns input of Inl f \<Rightarrow> Inl f | Inr r \<Rightarrow> Inr (valid r))"

text \<open>
  The schema as a step of another pipeline, \<^verbatim>\<open>handler(value, update, error)\<close>: it runs
  \<^verbatim>\<open>validate\<close>, hands every error to the caller's \<^verbatim>\<open>error\<close> as
  \<^verbatim>\<open>const { code, ...context } = e; error(code, context)\<close>, and then always calls the
  caller's \<^verbatim>\<open>update\<close> with the final value.
\<close>

definition forward_error :: "obj \<Rightarrow> call" where
  "forward_error e = Error (own e ''code'') (Obj (fmdrop ''code'' e))"

definition handler :: "handler list \<Rightarrow> handler" where
  "handler fns value' =
     (case validate fns value' of
        Inl f \<Rightarrow> Throws [] f
      | Inr r \<Rightarrow> Returns (map forward_error (errors r) @ [Update (value r)]))"

subsection \<open>The message of a failed assertion\<close>








section \<open>The key combinator\<close>

text \<open>
  A combinator runs its nested schema as a step, with callbacks of its own: every call
  the nested step makes becomes a call of the combinator on the outer callbacks, until a
  callback throws. A nested step that throws makes the combinator throw. (\<^verbatim>\<open>handler\<close> is
  an ordinary function: the last equation is for a step that returns a promise, which a
  combinator does not wait for.)
\<close>

fun relay_calls :: "(call \<Rightarrow> fault + call) \<Rightarrow> call list \<Rightarrow> call list \<times> fault option" where
  "relay_calls cb [] = ([], None)"
| "relay_calls cb (c # cs) =
     (case cb c of
        Inl f \<Rightarrow> ([], Some f)
      | Inr c' \<Rightarrow> (case relay_calls cb cs of (out, thrown) \<Rightarrow> (c' # out, thrown)))"

fun relay :: "(call \<Rightarrow> fault + call) \<Rightarrow> outcome \<Rightarrow> outcome" where
  "relay cb (Returns cs) =
     (case relay_calls cb cs of (out, None) \<Rightarrow> Returns out | (out, Some g) \<Rightarrow> Throws out g)"
| "relay cb (Throws cs f) =
     (case relay_calls cb cs of (out, None) \<Rightarrow> Throws out f | (out, Some g) \<Rightarrow> Throws out g)"
| "relay cb (Awaits pre post f) =
     (case relay_calls cb pre of (out, None) \<Rightarrow> Returns out | (out, Some g) \<Rightarrow> Throws out g)"

text \<open>
  \<^verbatim>\<open>keyUpdate\<close> calls the outer \<^verbatim>\<open>update\<close> with \<^verbatim>\<open>{ ...value, [name]: newKeyValue }\<close>;
  \<^verbatim>\<open>keyError\<close> calls the outer \<^verbatim>\<open>error\<close> with
  \<^verbatim>\<open>{ ...context, path: [name].concat(context.path || []) }\<close>.
\<close>

definition keyUpdate :: "string \<Rightarrow> jsval \<Rightarrow> jsval \<Rightarrow> call" where
  "keyUpdate name value' newKeyValue = Update (Obj (fmupd name newKeyValue (spread value')))"

definition keyError :: "string \<Rightarrow> jsval \<Rightarrow> jsval \<Rightarrow> fault + call" where
  "keyError name code context' =
     (case js_prop context' ''path'' of
        Inl f \<Rightarrow> Inl f
      | Inr p \<Rightarrow>
          Inr (Error code
                 (Obj (fmupd ''path'' (Arr (js_concat [Str name] (js_or p (Arr []))))
                         (spread context')))))"

fun key_callback :: "string \<Rightarrow> jsval \<Rightarrow> call \<Rightarrow> fault + call" where
  "key_callback name value' (Update newKeyValue) = Inr (keyUpdate name value' newKeyValue)"
| "key_callback name value' (Error code context') = keyError name code context'"

text \<open>
  \<^verbatim>\<open>key(name, ...fns)\<close>: \<^verbatim>\<open>const input = value[name]; keySchema(input, keyUpdate, keyError)\<close>
  with \<^verbatim>\<open>keySchema = schema(...fns)\<close>.
\<close>

definition key :: "string \<Rightarrow> handler list \<Rightarrow> handler" where
  "key name fns value' =
     (case js_prop value' name of
        Inl f \<Rightarrow> Throws [] f
      | Inr input \<Rightarrow> relay (key_callback name value') (handler fns input))"

section \<open>The items combinator\<close>

text \<open>
  \<^verbatim>\<open>x[i]\<close> for a number \<^verbatim>\<open>i\<close>, the array \<^verbatim>\<open>[...x]\<close> (a \<^verbatim>\<open>TypeError\<close> unless \<^verbatim>\<open>x\<close> is
  an array or a string), the assignment \<^verbatim>\<open>xs[i] = v\<close> (beyond the end, the array grows and
  the slots between read as \<^verbatim>\<open>undefined\<close>), and the test \<^verbatim>\<open>index < items.length\<close>. The
  length of an array or a string is a number; an object may carry any value as its own
  \<^verbatim>\<open>length\<close>: \<^verbatim>\<open>true\<close> counts as 1, \<^verbatim>\<open>false\<close> and \<^verbatim>\<open>null\<close> as 0, \<^verbatim>\<open>undefined\<close> is
  not a number and the test fails. The conversion of a string, an array or an object to a
  number is not modelled: the test is taken to fail for such a \<^verbatim>\<open>length\<close>.
\<close>

fun js_index :: "jsval \<Rightarrow> nat \<Rightarrow> fault + jsval" where
  "js_index Undefined i = Inl TypeError"
| "js_index Null i = Inl TypeError"
| "js_index (Bool b) i = Inr Undefined"
| "js_index (Num n) i = Inr Undefined"
| "js_index (Str s) i = Inr (if i < length s then Str [s ! i] else Undefined)"
| "js_index (Arr xs) i = Inr (if i < length xs then xs ! i else Undefined)"
| "js_index (Obj m) i = Inr (own m (string_of_nat i))"

fun js_iterate :: "jsval \<Rightarrow> fault + jsval list" where
  "js_iterate (Arr xs) = Inr xs"
| "js_iterate (Str s) = Inr (chars s)"
| "js_iterate x = Inl TypeError"

definition js_assign :: "jsval list \<Rightarrow> nat \<Rightarrow> jsval \<Rightarrow> jsval list" where
  "js_assign xs i v =
     (if i < length xs then xs[i := v] else xs @ replicate (i - length xs) Undefined @ [v])"

fun index_less :: "nat \<Rightarrow> jsval \<Rightarrow> bool" where
  "index_less i (Num n) = (int i < n)"
| "index_less i (Bool b) = (b \<and> i < 1)"
| "index_less i x = False"

text \<open>
  \<^verbatim>\<open>itemUpdate\<close> copies the current sequence, \<^verbatim>\<open>const newValue = [...items]\<close>, stores the
  new item at the current index, calls the outer \<^verbatim>\<open>update\<close> and rebinds \<^verbatim>\<open>items\<close>;
  \<^verbatim>\<open>itemError\<close> calls the outer \<^verbatim>\<open>error\<close> with
  \<^verbatim>\<open>{ ...context, path: [index].concat(context.path || []) }\<close>. Both are called while
  the nested schema runs, before \<^verbatim>\<open>index++\<close>.
\<close>

definition itemUpdate :: "nat \<Rightarrow> jsval \<Rightarrow> jsval \<Rightarrow> fault + call \<times> jsval" where
  "itemUpdate index items' newItemValue =
     (case js_iterate items' of
        Inl f \<Rightarrow> Inl f
      | Inr copy \<Rightarrow>
          (let newValue = Arr (js_assign copy index newItemValue)
           in Inr (Update newValue, newValue)))"

definition itemError :: "nat \<Rightarrow> jsval \<Rightarrow> jsval \<Rightarrow> fault + call" where
  "itemError index code context' =
     (case js_prop context' ''path'' of
        Inl f \<Rightarrow> Inl f
      | Inr p \<Rightarrow>
          Inr (Error code
                 (Obj (fmupd ''path'' (Arr (js_concat [Num (int index)] (js_or p (Arr []))))
                         (spread context')))))"

text \<open>
  The calls of the nested step at one index, relayed in order: the outer calls made, the
  sequence \<^verbatim>\<open>items\<close> afterwards, and the fault of the callback that threw, if one did.
\<close>

fun relay_item :: "nat \<Rightarrow> call list \<Rightarrow> jsval \<Rightarrow> call list \<times> jsval \<times> fault option" where
  "relay_item index [] items' = ([], items', None)"
| "relay_item index (Update newItemValue # cs) items' =
     (case itemUpdate index items' newItemValue of
        Inl f \<Rightarrow> ([], items', Some f)
      | Inr (c, newValue) \<Rightarrow>
          (case relay_item index cs newValue of (out, final, thrown) \<Rightarrow> (c # out, final, thrown)))"
| "relay_item index (Error code context' # cs) items' =
     (case itemError index code context' of
        Inl f \<Rightarrow> ([], items', Some f)
      | Inr c \<Rightarrow>
          (case relay_item index cs items' of (out, final, thrown) \<Rightarrow> (c # out, final, thrown)))"

text \<open>
  The number of rounds the loop can still make is bounded by the length of the sequence,
  which no round changes.
\<close>

fun loop_bound :: "jsval \<Rightarrow> nat" where
  "loop_bound (Arr xs) = length xs"
| "loop_bound (Str s) = length s"
| "loop_bound (Obj m) =
     (case own m ''length'' of Num n \<Rightarrow> nat n | Bool b \<Rightarrow> 1 | _ \<Rightarrow> 0)"
| "loop_bound x = 0"

lemma index_less_loop_bound:
  "js_prop items' ''length'' = Inr len \<Longrightarrow> index_less index len \<Longrightarrow> index < loop_bound items'"
  by (cases items'; cases len) (auto split: if_splits jsval.splits)

lemma relay_item_loop_bound:
  "relay_item index cs items' = (out, final, None) \<Longrightarrow> index < loop_bound items' \<Longrightarrow>
     loop_bound final = loop_bound items'"
proof (induction index cs items' arbitrary: out rule: relay_item.induct)
  case (1 index items')
  then show ?case by simp
next
  case (2 index newItemValue cs items')
  then show ?case
    by (cases items')
      (auto simp: itemUpdate_def js_assign_def chars_def Let_def split: sum.splits prod.splits)
next
  case (3 index code context' cs items')
  then show ?case by (auto split: sum.splits prod.splits)
qed

text \<open>
  \<^verbatim>\<open>items(...fns)\<close>: \<^verbatim>\<open>let items = value; let index = 0;\<close> and the loop
  \<^verbatim>\<open>while (index < items.length) { const item = items[index];
  itemSchema(item, itemUpdate, itemError); index++; }\<close> with
  \<^verbatim>\<open>itemSchema = schema(...fns)\<close>. The last argument collects the calls made on the outer
  callbacks so far.
\<close>

function items_loop :: "handler list \<Rightarrow> jsval \<Rightarrow> nat \<Rightarrow> call list \<Rightarrow> outcome" where
  "items_loop fns items' index acc =
     (case js_prop items' ''length'' of
        Inl f \<Rightarrow> Throws acc f
      | Inr len \<Rightarrow>
          if index_less index len then
            (case js_index items' index of
               Inl f \<Rightarrow> Throws acc f
             | Inr item \<Rightarrow>
                 (case relay_item index (sync_calls (handler fns item)) items' of
                    (out, final, Some g) \<Rightarrow> Throws (acc @ out) g
                  | (out, final, None) \<Rightarrow>
                      (case handler fns item of
                         Throws cs f \<Rightarrow> Throws (acc @ out) f
                       | Returns cs \<Rightarrow> items_loop fns final (Suc index) (acc @ out)
                       | Awaits pre post f \<Rightarrow> items_loop fns final (Suc index) (acc @ out))))
          else Returns acc)"
  by pat_completeness auto
termination
proof (relation "measure (\<lambda>(fns, items', index, acc). loop_bound items' - index)")
  show "wf (measure (\<lambda>(fns, items', index, acc). loop_bound items' - index))"
    by simp
next
  fix fns :: "handler list" and items' index and acc :: "call list" and len item out rest final thrown cs
  assume "js_prop items' ''length'' = Inr len" "index_less index len"
    and "(out, rest) = relay_item index (sync_calls (handler fns item)) items'"
    and "(final, thrown) = rest" "thrown = None"
  then have "index < loop_bound items'" "loop_bound final = loop_bound items'"
    using index_less_loop_bound relay_item_loop_bound by metis+
  then show "((fns, final, Suc index, acc @ out), (fns, items', index, acc))
      \<in> measure (\<lambda>(fns, items', index, acc). loop_bound items' - index)"
    by simp
next
  fix fns :: "handler list" and items' index and acc :: "call list" and len item out rest final thrown pre post f
  assume "js_prop items' ''length'' = Inr len" "index_less index len"
    and "(out, rest) = relay_item index (sync_calls (handler fns item)) items'"
    and "(final, thrown) = rest" "thrown = None"
  then have "index < loop_bound items'" "loop_bound final = loop_bound items'"
    using index_less_loop_bound relay_item_loop_bound by metis+
  then show "((fns, final, Suc index, acc @ out), (fns, items', index, acc))
      \<in> measure (\<lambda>(fns, items', index, acc). loop_bound items' - index)"
    by simp
qed

declare items_loop.simps [simp del]

definition items :: "handler list \<Rightarrow> handler" where
  "items fns value' = items_loop fns value' 0 []"

section \<open>Leaf handlers\<close>

text \<open>
  Two leaf handlers of \<^verbatim>\<open>schema.js\<close>: \<^verbatim>\<open>required()\<close> reports a value that is not truthy;
  \<^verbatim>\<open>mapAdapter(mapFn)\<close> replaces the value by \<^verbatim>\<open>mapFn(value)\<close> unless that is
  \<^verbatim>\<open>undefined\<close>.
\<close>

definition required :: handler where
  "required value' =
     (if \<not> truthy value' then
        Returns [Error (Str ''required'')
                   (Obj (fmupd ''value'' value'
                           (fmupd ''message'' (Str ''value is required'') fmempty)))]
      else Returns [])"

definition mapAdapter :: "(jsval \<Rightarrow> jsval) \<Rightarrow> handler" where
  "mapAdapter mapFn value' =
     (let returnValue = mapFn value'
      in if returnValue \<noteq> Undefined then Returns [Update returnValue] else Returns [])"


definition bare_error :: handler where
  "bare_error value' = Returns [Error (Str ''bad'') (Obj fmempty)]"


section \<open>The errors array as an object of the heap\<close>

text \<open>
  \<^verbatim>\<open>const errors = []\<close> creates a new array, \<^verbatim>\<open>errors.push(e)\<close> changes it in place, and
  the result holds a reference to it. Here the heap is the list of all arrays created so
  far, an array is known by its position in that list, and an invocation runs on the heap
  it finds and returns the heap it leaves, also when it throws. \<open>validate_in\<close> is
  \<^verbatim>\<open>validate\<close> with the array kept on the heap: \<open>errors_at\<close> is the reference in the
  result.
\<close>

type_synonym heap = "obj list list"

record returned =
  checked +
  errors_at :: nat

fun perform_in :: "nat \<Rightarrow> call \<Rightarrow> jsval \<times> heap \<Rightarrow> jsval \<times> heap" where
  "perform_in a (Update newValue) (value', h) = (newValue, h)"
| "perform_in a (Error code context') (value', h) =
     (value', h[a := h ! a @ [make_error code context']])"

fun run_handlers_in :: "nat \<Rightarrow> handler list \<Rightarrow> jsval \<times> heap \<Rightarrow> (fault + jsval) \<times> heap" where
  "run_handlers_in a [] s = (Inr (fst s), snd s)"
| "run_handlers_in a (fn # functions) s =
     (case fn (fst s) of
        Returns cs \<Rightarrow> run_handlers_in a functions (fold (perform_in a) cs s)
      | Throws cs f \<Rightarrow> (Inl f, snd (fold (perform_in a) cs s))
      | Awaits pre post f \<Rightarrow> run_handlers_in a functions (fold (perform_in a) pre s))"

definition validate_in :: "handler list \<Rightarrow> jsval \<Rightarrow> heap \<Rightarrow> (fault + returned) \<times> heap" where
  "validate_in fns input h =
     (let errors' = length h
      in case run_handlers_in errors' fns (input, h @ [[]]) of
           (Inl f, h') \<Rightarrow> (Inl f, h')
         | (Inr value', h') \<Rightarrow>
             (Inr \<lparr>value = value', valid = (\<not> (length (h' ! errors') \<noteq> 0)),
                   errors_at = errors'\<rparr>, h'))"

section \<open>The calls of one invocation\<close>

text \<open>
  What the loop of \<^verbatim>\<open>execValidationPipeline\<close> does, written down as it goes: one entry for
  every call \<^verbatim>\<open>fn(value, update, error)\<close>, with the position of \<^verbatim>\<open>fn\<close> in the handler
  list, the \<^verbatim>\<open>value\<close> it was given and the calls of \<^verbatim>\<open>update\<close> and \<^verbatim>\<open>error\<close> it made
  before it returned.
\<close>

record invocation =
  step :: nat
  seen :: jsval
  made :: "call list"

fun invocations_from :: "nat \<Rightarrow> handler list \<Rightarrow> state \<Rightarrow> invocation list" where
  "invocations_from k [] s = []"
| "invocations_from k (fn # functions) s =
     \<lparr>step = k, seen = fst s, made = sync_calls (fn (fst s))\<rparr> #
     (case fn (fst s) of
        Returns cs \<Rightarrow> invocations_from (Suc k) functions (fold perform cs s)
      | Throws cs f \<Rightarrow> []
      | Awaits pre post f \<Rightarrow> invocations_from (Suc k) functions (fold perform pre s))"

definition invocations :: "handler list \<Rightarrow> jsval \<Rightarrow> invocation list" where
  "invocations fns input = invocations_from 0 fns (input, [])"

definition calls_made :: "handler list \<Rightarrow> jsval \<Rightarrow> call list" where
  "calls_made fns input = concat (map made (invocations fns input))"

fun updates_of :: "call list \<Rightarrow> jsval list" where
  "updates_of [] = []"
| "updates_of (Update v # cs) = v # updates_of cs"
| "updates_of (Error c x # cs) = updates_of cs"

fun errors_of :: "call list \<Rightarrow> obj list" where
  "errors_of [] = []"
| "errors_of (Update v # cs) = errors_of cs"
| "errors_of (Error c x # cs) = make_error c x # errors_of cs"

section \<open>Notions used to state the results\<close>

text \<open>
  The error record \<open>e\<close> after a combinator has relayed it with the segment \<open>seg\<close>: its
  \<^verbatim>\<open>path\<close> is \<^verbatim>\<open>[seg].concat(e.path || [])\<close>, everything else is unchanged.
\<close>

definition prepend_path :: "jsval \<Rightarrow> obj \<Rightarrow> obj" where
  "prepend_path seg e = fmupd ''path'' (Arr (js_concat [seg] (js_or (own e ''path'') (Arr [])))) e"

text \<open>
  For \<^verbatim>\<open>items\<close> on an array \<open>xs\<close>: the sequence after the first \<open>i\<close> elements have been
  replaced by \<open>f\<close> of them, and the calls \<^verbatim>\<open>items\<close> makes on the outer callbacks at index
  \<open>i\<close> when the nested schema returned \<open>r\<close> there and \<open>after\<close> is the sequence with the
  new item stored.
\<close>

definition item_calls :: "nat \<Rightarrow> result \<Rightarrow> jsval list \<Rightarrow> call list" where
  "item_calls i r after =
     map (\<lambda>e. Error (own e ''code'')
            (Obj (fmupd ''path'' (Arr (js_concat [Num (int i)] (js_or (own e ''path'') (Arr []))))
                    (fmdrop ''code'' e)))) (errors r) @ [Update (Arr after)]"

definition snapshot :: "(jsval \<Rightarrow> jsval) \<Rightarrow> jsval list \<Rightarrow> nat \<Rightarrow> jsval list" where
  "snapshot f xs i = map f (take i xs) @ drop i xs"

text \<open>
  For \<^verbatim>\<open>items(...fns)\<close> on an array \<open>xs\<close>: whether the nested schema returns on an
  element, the result it returns there, and the number of leading elements of \<open>xs\<close> on
  which it returns, which is the length of \<open>xs\<close> or the index of the first element on
  which the nested schema throws.
\<close>

definition returns_on :: "handler list \<Rightarrow> jsval \<Rightarrow> bool" where
  "returns_on fns x = (case validate fns x of Inl f \<Rightarrow> False | Inr r \<Rightarrow> True)"

definition nested_result :: "handler list \<Rightarrow> jsval \<Rightarrow> result" where
  "nested_result fns x =
     (case validate fns x of
        Inl f \<Rightarrow> \<lparr>value = x, valid = False, errors = []\<rparr>
      | Inr r \<Rightarrow> r)"

definition reached :: "handler list \<Rightarrow> jsval list \<Rightarrow> nat" where
  "reached fns xs = length (takeWhile (returns_on fns) xs)"

text \<open>
  The handler contract as the specification words it: \<^verbatim>\<open>error\<close> is called with a
  non-empty code and a context object. A call is informative when, besides, the context
  carries a string \<^verbatim>\<open>message\<close>, no \<^verbatim>\<open>code\<close> of its own, and no \<^verbatim>\<open>path\<close> other than an
  array. An error record is populated when its \<^verbatim>\<open>code\<close> is a non-empty string, its
  \<^verbatim>\<open>path\<close> an array and its \<^verbatim>\<open>message\<close> a string.
\<close>

fun contract_call :: "call \<Rightarrow> bool" where
  "contract_call (Update v) = True"
| "contract_call (Error code context') =
     ((case code of Str s \<Rightarrow> s \<noteq> [] | _ \<Rightarrow> False) \<and>
      (case context' of Obj m \<Rightarrow> True | _ \<Rightarrow> False))"

definition obeys_contract :: "handler \<Rightarrow> bool" where
  "obeys_contract h = (\<forall>v. \<forall>c\<in>set (sync_calls (h v)). contract_call c)"

fun informative_call :: "call \<Rightarrow> bool" where
  "informative_call (Update v) = True"
| "informative_call (Error code context') =
     ((case code of Str s \<Rightarrow> s \<noteq> [] | _ \<Rightarrow> False) \<and>
      (case context' of
         Obj m \<Rightarrow>
           fmlookup m ''code'' = None \<and>
           (case fmlookup m ''message'' of Some (Str t) \<Rightarrow> True | _ \<Rightarrow> False) \<and>
           (case fmlookup m ''path'' of None \<Rightarrow> True | Some (Arr p) \<Rightarrow> True | _ \<Rightarrow> False)
       | _ \<Rightarrow> False))"

definition informative :: "handler \<Rightarrow> bool" where
  "informative h = (\<forall>v. \<forall>c\<in>set (sync_calls (h v)). informative_call c)"

definition populated :: "obj \<Rightarrow> bool" where
  "populated e =
     ((case fmlookup e ''code'' of Some (Str s) \<Rightarrow> s \<noteq> [] | _ \<Rightarrow> False) \<and>
      (case fmlookup e ''path'' of Some (Arr p) \<Rightarrow> True | _ \<Rightarrow> False) \<and>
      (case fmlookup e ''message'' of Some (Str t) \<Rightarrow> True | _ \<Rightarrow> False))"




section \<open>The effect of a sequence of calls\<close>

lemma snd_fold_perform: "snd (fold perform cs s) = snd s @ errors_of cs"
  by (induction cs arbitrary: s rule: errors_of.induct) (auto simp: split_paired_all)

lemma fst_fold_perform: "fst (fold perform cs s) = last (fst s # updates_of cs)"
  by (induction cs arbitrary: s rule: updates_of.induct) (auto simp: split_paired_all)

lemma updates_of_append: "updates_of (cs @ ds) = updates_of cs @ updates_of ds"
  by (induction cs rule: updates_of.induct) simp_all

lemma errors_of_append: "errors_of (cs @ ds) = errors_of cs @ errors_of ds"
  by (induction cs rule: errors_of.induct) simp_all

lemma errors_of_concat: "errors_of (concat css) = concat (map errors_of css)"
  by (induction css) (simp_all add: errors_of_append)

lemma errors_of_empty: "errors_of cs = [] \<longleftrightarrow> (\<forall>c x. Error c x \<notin> set cs)"
  by (induction cs rule: errors_of.induct) auto

lemma run_handlers_calls:
  "run_handlers fns s = Inr s' \<Longrightarrow>
     s' = fold perform (concat (map made (invocations_from k fns s))) s"
proof (induction fns arbitrary: s k)
  case Nil
  then show ?case by simp
next
  case (Cons fn fns)
  then show ?case by (cases "fn (fst s)") auto
qed







lemma validate_run:
  "validate fns input = Inr r \<longleftrightarrow> (\<exists>s. run_handlers fns (input, []) = Inr s \<and> r = assemble s)"
  by (auto simp: validate_def execValidationPipeline_def split: sum.splits)

lemma validate_calls:
  assumes "validate fns input = Inr r"
  shows "value r = last (input # updates_of (calls_made fns input))"
    and "errors r = errors_of (calls_made fns input)"
    and "valid r = (errors r = [])"
proof -
  obtain s where run: "run_handlers fns (input, []) = Inr s" and r: "r = assemble s"
    using assms by (auto simp: validate_run)
  have s: "s = fold perform (calls_made fns input) (input, [])"
    using run_handlers_calls [OF run, of 0] by (simp add: calls_made_def invocations_def)
  show "value r = last (input # updates_of (calls_made fns input))"
    using r s fst_fold_perform [of "calls_made fns input" "(input, [])"]
    by (simp add: assemble_def)
  show "errors r = errors_of (calls_made fns input)"
    using r s snd_fold_perform [of "calls_made fns input" "(input, [])"]
    by (simp add: assemble_def)
  show "valid r = (errors r = [])"
    using r by (simp add: assemble_def)
qed

section \<open>The shape of error records\<close>

lemma make_error_lookup:
  "fmlookup (make_error c x) k =
     (case fmlookup (spread x) k of
        Some v \<Rightarrow> Some v
      | None \<Rightarrow> if k = ''path'' then Some (Arr []) else if k = ''code'' then Some c else None)"
  by (auto simp: make_error_def fmlookup_dom_iff split: option.splits)

lemma make_error_has_code: "fmlookup (make_error c x) ''code'' \<noteq> None"
  by (simp add: make_error_lookup split: option.splits)

lemma make_error_has_path: "fmlookup (make_error c x) ''path'' \<noteq> None"
  by (simp add: make_error_lookup split: option.splits)

lemma remake_error:
  assumes "fmlookup e ''code'' \<noteq> None" and "fmlookup e ''path'' \<noteq> None"
  shows "make_error (own e ''code'') (Obj (fmdrop ''code'' e)) = e"
proof (rule fmap_ext)
  fix k
  show "fmlookup (make_error (own e ''code'') (Obj (fmdrop ''code'' e))) k = fmlookup e k"
    using assms by (auto simp: make_error_lookup own_def split: option.splits)
qed

lemma set_errors_of: "set (errors_of cs) = {make_error c x | c x. Error c x \<in> set cs}"
  by (induction cs rule: errors_of.induct) auto

lemma errors_of_forward:
  "(\<forall>e\<in>set es. fmlookup e ''code'' \<noteq> None \<and> fmlookup e ''path'' \<noteq> None) \<Longrightarrow>
     errors_of (map forward_error es) = es"
  by (induction es) (simp_all add: forward_error_def remake_error)

lemma updates_of_forward: "updates_of (map forward_error es) = []"
  by (induction es) (simp_all add: forward_error_def)

lemma validate_errors_shape:
  assumes "validate fns input = Inr r" and "e \<in> set (errors r)"
  shows "fmlookup e ''code'' \<noteq> None \<and> fmlookup e ''path'' \<noteq> None"
  using assms validate_calls(2) [OF assms(1)]
  by (auto simp: set_errors_of make_error_lookup split: option.splits)

lemma validate_single:
  "validate [h] input =
     (case h input of
        Returns cs \<Rightarrow> Inr (assemble (fold perform cs (input, [])))
      | Throws cs f \<Rightarrow> Inl f
      | Awaits pre post f \<Rightarrow> Inr (assemble (fold perform pre (input, []))))"
  by (simp add: validate_def execValidationPipeline_def split: outcome.splits)

lemma fold_perform_pair:
  "fold perform cs s = (last (fst s # updates_of cs), snd s @ errors_of cs)"
  by (metis fst_fold_perform snd_fold_perform prod.collapse)

section \<open>What the key combinator does\<close>

lemma js_concat_single: "\<exists>rest. js_concat [seg] y = seg # rest"
  by (cases y) simp_all

lemma remake_error_path:
  assumes "fmlookup e ''code'' \<noteq> None"
  shows "make_error (own e ''code'') (Obj (fmupd ''path'' p (fmdrop ''code'' e))) = fmupd ''path'' p e"
proof (rule fmap_ext)
  fix k
  show "fmlookup (make_error (own e ''code'') (Obj (fmupd ''path'' p (fmdrop ''code'' e)))) k =
      fmlookup (fmupd ''path'' p e) k"
    using assms by (auto simp: make_error_lookup own_def split: option.splits)
qed

lemma own_drop_code: "own (fmdrop ''code'' e) ''path'' = own e ''path''"
  by (simp add: own_def)

lemma keyError_forward:
  "keyError name (own e ''code'') (Obj (fmdrop ''code'' e)) =
     Inr (Error (own e ''code'')
            (Obj (fmupd ''path'' (Arr (js_concat [Str name] (js_or (own e ''path'') (Arr []))))
                    (fmdrop ''code'' e))))"
  by (simp add: keyError_def own_drop_code)

lemma relay_calls_key:
  "relay_calls (key_callback name v) (map forward_error es @ [Update u]) =
     (map (\<lambda>e. Error (own e ''code'')
            (Obj (fmupd ''path'' (Arr (js_concat [Str name] (js_or (own e ''path'') (Arr []))))
                    (fmdrop ''code'' e)))) es @ [keyUpdate name v u], None)"
  by (induction es) (simp_all add: forward_error_def keyError_forward)

lemma key_returns:
  assumes "js_prop v name = Inr input" and "validate fns input = Inr r"
  shows "key name fns v =
     Returns (map (\<lambda>e. Error (own e ''code'')
            (Obj (fmupd ''path'' (Arr (js_concat [Str name] (js_or (own e ''path'') (Arr []))))
                    (fmdrop ''code'' e)))) (errors r) @
              [Update (Obj (fmupd name (value r) (spread v)))])"
  using assms by (simp add: key_def handler_def relay_calls_key keyUpdate_def)

lemma key_throws:
  "js_prop v name = Inl f \<Longrightarrow> key name fns v = Throws [] f"
  "js_prop v name = Inr input \<Longrightarrow> validate fns input = Inl f \<Longrightarrow> key name fns v = Throws [] f"
  by (simp_all add: key_def handler_def)

lemma errors_of_prepended:
  "(\<forall>e\<in>set es. fmlookup e ''code'' \<noteq> None) \<Longrightarrow>
   errors_of (map (\<lambda>e. Error (own e ''code'')
            (Obj (fmupd ''path'' (Arr (js_concat [seg] (js_or (own e ''path'') (Arr []))))
                    (fmdrop ''code'' e)))) es) = map (prepend_path seg) es"
  by (induction es) (simp_all add: remake_error_path prepend_path_def)

lemma updates_of_prepended:
  "updates_of (map (\<lambda>e. Error (c e) (x e)) es) = []"
  by (induction es) simp_all

lemma validate_key:
  assumes "js_prop v name = Inr input" and "validate fns input = Inr r"
  shows "validate [key name fns] v =
     Inr \<lparr>value = Obj (fmupd name (value r) (spread v)), valid = valid r,
          errors = map (prepend_path (Str name)) (errors r)\<rparr>"
proof -
  have shape: "\<forall>e\<in>set (errors r). fmlookup e ''code'' \<noteq> None"
    using validate_errors_shape [OF assms(2)] by blast
  show ?thesis
    using validate_calls(3) [OF assms(2)]
    by (simp add: validate_single key_returns [OF assms] fold_perform_pair updates_of_append
        errors_of_append updates_of_prepended errors_of_prepended [OF shape] assemble_def)
qed

lemma validate_key_inv:
  assumes "validate [key name fns] v = Inr r'"
  shows "\<exists>input r. js_prop v name = Inr input \<and> validate fns input = Inr r \<and>
     r' = \<lparr>value = Obj (fmupd name (value r) (spread v)), valid = valid r,
          errors = map (prepend_path (Str name)) (errors r)\<rparr>"
proof (cases "js_prop v name")
  case (Inl f)
  with assms show ?thesis by (simp add: validate_single key_throws)
next
  case input: (Inr input)
  show ?thesis
  proof (cases "validate fns input")
    case (Inl f)
    with assms input show ?thesis by (simp add: validate_single key_throws)
  next
    case (Inr r)
    with assms input validate_key [OF input Inr] show ?thesis by simp
  qed
qed

lemma prepend_path_lookup:
  "\<exists>rest. fmlookup (prepend_path seg e) ''path'' = Some (Arr (seg # rest))"
  using js_concat_single [of seg] by (simp add: prepend_path_def)

lemma prepend_path_nested:
  "fmlookup e ''path'' = Some (Arr (b # rest)) \<Longrightarrow>
     fmlookup (prepend_path a e) ''path'' = Some (Arr (a # b # rest))"
  by (simp add: prepend_path_def own_def js_or_def)

lemma validate_key_errors:
  assumes "validate [key name fns] v = Inr r'"
  shows "\<exists>input r. validate fns input = Inr r \<and>
     errors r' = map (prepend_path (Str name)) (errors r)"
proof -
  from validate_key_inv [OF assms] obtain input r
    where run: "validate fns input = Inr r"
      and r': "r' = \<lparr>value = Obj (fmupd name (value r) (spread v)), valid = valid r,
          errors = map (prepend_path (Str name)) (errors r)\<rparr>"
    by blast
  from r' have "errors r' = map (prepend_path (Str name)) (errors r)"
    by simp
  with run show ?thesis by blast
qed

lemma key_call_path:
  assumes "Error c x \<in> set (sync_calls (key name fns v))"
  shows "\<exists>rest. fmlookup (make_error c x) ''path'' = Some (Arr (Str name # rest))"
proof (cases "js_prop v name")
  case (Inl f)
  with assms show ?thesis by (simp add: key_throws)
next
  case input: (Inr input)
  show ?thesis
  proof (cases "validate fns input")
    case (Inl f)
    with assms input show ?thesis by (simp add: key_throws)
  next
    case (Inr r)
    with assms input obtain e
      where "x = Obj (fmupd ''path'' (Arr (js_concat [Str name] (js_or (own e ''path'') (Arr []))))
                        (fmdrop ''code'' e))"
      by (auto simp: key_returns)
    then show ?thesis
      using js_concat_single [of "Str name"] by (simp add: make_error_lookup)
  qed
qed

section \<open>What the items combinator does on an array\<close>

lemma itemError_forward:
  "itemError i (own e ''code'') (Obj (fmdrop ''code'' e)) =
     Inr (Error (own e ''code'')
            (Obj (fmupd ''path'' (Arr (js_concat [Num (int i)] (js_or (own e ''path'') (Arr []))))
                    (fmdrop ''code'' e))))"
  by (simp add: itemError_def own_drop_code)

lemma relay_item_forward:
  "relay_item i (map forward_error es @ [Update u]) (Arr ys) =
     (map (\<lambda>e. Error (own e ''code'')
            (Obj (fmupd ''path'' (Arr (js_concat [Num (int i)] (js_or (own e ''path'') (Arr []))))
                    (fmdrop ''code'' e)))) es @ [Update (Arr (js_assign ys i u))],
      Arr (js_assign ys i u), None)"
  by (induction es) (simp_all add: forward_error_def itemError_forward itemUpdate_def Let_def)

lemma snapshot_Suc:
  "i < length xs \<Longrightarrow> (snapshot f xs i)[i := f (xs ! i)] = snapshot f xs (Suc i)"
  by (simp add: snapshot_def take_Suc_conv_app_nth list_update_append
      flip: Cons_nth_drop_Suc)

lemma snapshot_nth: "i < length xs \<Longrightarrow> snapshot f xs i ! i = xs ! i"
  by (simp add: snapshot_def nth_append)

lemma length_snapshot: "length (snapshot f xs i) = length xs"
  by (simp add: snapshot_def)

lemma items_loop_upto:
  assumes k: "k \<le> length xs"
    and ok: "\<forall>i<k. validate fns (xs ! i) = Inr (res (xs ! i))"
    and stop: "k < length xs \<longrightarrow> validate fns (xs ! k) = Inl f"
  shows "index \<le> k \<Longrightarrow>
     items_loop fns (Arr (snapshot (\<lambda>x. value (res x)) xs index)) index acc =
       (if k = length xs
        then Returns (acc @ concat (map (\<lambda>i. item_calls i (res (xs ! i))
                  (snapshot (\<lambda>x. value (res x)) xs (Suc i))) [index..<k]))
        else Throws (acc @ concat (map (\<lambda>i. item_calls i (res (xs ! i))
                  (snapshot (\<lambda>x. value (res x)) xs (Suc i))) [index..<k])) f)"
proof (induction "k - index" arbitrary: index acc)
  case 0
  then have index: "index = k" by simp
  show ?case
  proof (cases "k = length xs")
    case True
    then show ?thesis
      using index by (subst items_loop.simps) (simp add: length_snapshot)
  next
    case False
    then have lt: "k < length xs" using k by simp
    then have "validate fns (xs ! k) = Inl f" using stop by simp
    then show ?thesis
      using index lt
      by (subst items_loop.simps) (simp add: length_snapshot snapshot_nth handler_def)
  qed
next
  case (Suc n)
  then have lt: "index < k" by simp
  then have len: "index < length xs" using k by simp
  have run: "validate fns (xs ! index) = Inr (res (xs ! index))"
    using ok lt by simp
  have upt: "[index..<k] = index # [Suc index..<k]"
    "[index..<length xs] = index # [Suc index..<length xs]"
    using lt len by (simp_all add: upt_conv_Cons)
  have IH: "items_loop fns (Arr (snapshot (\<lambda>x. value (res x)) xs (Suc index))) (Suc index) acc' =
       (if k = length xs
        then Returns (acc' @ concat (map (\<lambda>i. item_calls i (res (xs ! i))
                  (snapshot (\<lambda>x. value (res x)) xs (Suc i))) [Suc index..<k]))
        else Throws (acc' @ concat (map (\<lambda>i. item_calls i (res (xs ! i))
                  (snapshot (\<lambda>x. value (res x)) xs (Suc i))) [Suc index..<k])) f)" for acc'
    using Suc.hyps(1) [of "Suc index" acc'] Suc.hyps(2) lt by simp
  have snap: "(snapshot (\<lambda>x. value (res x)) xs index)[index := value (res (xs ! index))] =
      snapshot (\<lambda>x. value (res x)) xs (Suc index)"
    using snapshot_Suc [OF len, of "\<lambda>x. value (res x)"] by simp
  show ?case
    by (subst items_loop.simps)
      (simp add: length_snapshot len snapshot_nth handler_def run relay_item_forward
        js_assign_def snap IH upt item_calls_def)
qed

lemma items_upto:
  assumes "k \<le> length xs"
    and "\<forall>i<k. validate fns (xs ! i) = Inr (res (xs ! i))"
    and "k < length xs \<longrightarrow> validate fns (xs ! k) = Inl f"
  shows "items fns (Arr xs) =
       (if k = length xs
        then Returns (concat (map (\<lambda>i. item_calls i (res (xs ! i))
                  (snapshot (\<lambda>x. value (res x)) xs (Suc i))) [0..<k]))
        else Throws (concat (map (\<lambda>i. item_calls i (res (xs ! i))
                  (snapshot (\<lambda>x. value (res x)) xs (Suc i))) [0..<k])) f)"
  using items_loop_upto [OF assms, of 0 "[]"] by (simp add: items_def snapshot_def)

lemma updates_of_item_calls: "updates_of (item_calls i r after) = [Arr after]"
  by (simp add: item_calls_def updates_of_append updates_of_prepended)

lemma updates_of_concat: "updates_of (concat css) = concat (map updates_of css)"
  by (induction css) (simp_all add: updates_of_append)

lemma errors_of_item_calls:
  "(\<forall>e\<in>set (errors r). fmlookup e ''code'' \<noteq> None) \<Longrightarrow>
     errors_of (item_calls i r after) = map (prepend_path (Num (int i))) (errors r)"
  by (simp add: item_calls_def errors_of_append errors_of_prepended)

lemma snapshot_all: "snapshot f xs (length xs) = map f xs"
  by (simp add: snapshot_def)

section \<open>Handlers that complete synchronously\<close>


section \<open>Formatting the errors\<close>




section \<open>Informative handlers\<close>

lemma populated_make_error:
  "informative_call (Error c x) \<Longrightarrow> populated (make_error c x)"
  by (auto simp: populated_def make_error_lookup split: jsval.splits option.splits)

lemma invocations_from_handlers:
  "v \<in> set (invocations_from k fns s) \<Longrightarrow> \<exists>h\<in>set fns. made v = sync_calls (h (seen v))"
proof (induction fns arbitrary: k s)
  case Nil
  then show ?case by simp
next
  case (Cons fn fns)
  show ?case
  proof (cases "v = \<lparr>step = k, seen = fst s, made = sync_calls (fn (fst s))\<rparr>")
    case True
    then show ?thesis by simp
  next
    case False
    with Cons.prems obtain k' s' where "v \<in> set (invocations_from k' fns s')"
      by (cases "fn (fst s)") fastforce+
    from Cons.IH [OF this] show ?thesis by auto
  qed
qed

lemma calls_made_handlers:
  "c \<in> set (calls_made fns input) \<Longrightarrow> \<exists>h\<in>set fns. \<exists>v. c \<in> set (sync_calls (h v))"
  using invocations_from_handlers
  by (fastforce simp: calls_made_def invocations_def)

lemma informative_errors:
  assumes "\<forall>h\<in>set fns. informative h" and "validate fns input = Inr r"
  shows "\<forall>e\<in>set (errors r). populated e"
proof
  fix e
  assume "e \<in> set (errors r)"
  then obtain c x where cx: "Error c x \<in> set (calls_made fns input)" and e: "e = make_error c x"
    using validate_calls(2) [OF assms(2)] by (auto simp: set_errors_of)
  from calls_made_handlers [OF cx] obtain h v
    where "h \<in> set fns" and "Error c x \<in> set (sync_calls (h v))"
    by blast
  with assms(1) have "informative_call (Error c x)"
    unfolding informative_def by blast
  then show "populated e"
    using e by (simp add: populated_make_error)
qed

text \<open>
  The combinators keep the property: a schema used as a step, a \<^verbatim>\<open>key\<close> and an \<^verbatim>\<open>items\<close>
  over handlers that make informative calls make informative calls.
\<close>

lemma informative_forward: "populated e \<Longrightarrow> informative_call (forward_error e)"
  by (auto simp: populated_def forward_error_def own_def split: option.splits jsval.splits)

lemma informative_handler:
  assumes "\<forall>h\<in>set fns. informative h"
  shows "informative (handler fns)"
  unfolding informative_def
proof (intro allI ballI)
  fix v c
  assume c: "c \<in> set (sync_calls (handler fns v))"
  show "informative_call c"
  proof (cases "validate fns v")
    case (Inl f)
    with c show ?thesis by (simp add: handler_def)
  next
    case (Inr r)
    with c informative_errors [OF assms Inr] show ?thesis
      by (auto simp: handler_def informative_forward)
  qed
qed

lemma informative_keyError:
  "informative_call (Error c x) \<Longrightarrow> keyError name c x = Inr k \<Longrightarrow> informative_call k"
  by (auto simp: keyError_def split: jsval.splits option.splits sum.splits)

lemma informative_relay_calls:
  "\<forall>c\<in>set cs. informative_call c \<Longrightarrow> \<forall>c\<in>set (fst (relay_calls (key_callback name v) cs)). informative_call c"
proof (induction cs)
  case Nil
  then show ?case by simp
next
  case (Cons c cs)
  then show ?case
    by (cases c)
      (auto simp del: informative_call.simps simp: informative_call.simps(1) keyUpdate_def
        split: sum.splits prod.splits dest: informative_keyError)
qed

lemma sync_calls_relay: "sync_calls (relay cb out) = fst (relay_calls cb (sync_calls out))"
  by (cases out) (auto split: prod.splits option.splits)

lemma informative_key:
  assumes "\<forall>h\<in>set fns. informative h"
  shows "informative (key name fns)"
  unfolding informative_def
proof (intro allI ballI)
  fix v c
  assume c: "c \<in> set (sync_calls (key name fns v))"
  show "informative_call c"
  proof (cases "js_prop v name")
    case (Inl f)
    with c show ?thesis by (simp add: key_def)
  next
    case (Inr input)
    have "\<forall>c\<in>set (sync_calls (handler fns input)). informative_call c"
      using informative_handler [OF assms] unfolding informative_def by blast
    from informative_relay_calls [OF this] c Inr show ?thesis
      by (simp add: key_def sync_calls_relay)
  qed
qed

lemma informative_itemError:
  "informative_call (Error c x) \<Longrightarrow> itemError i c x = Inr k \<Longrightarrow> informative_call k"
  by (auto simp: itemError_def split: jsval.splits option.splits sum.splits)

lemma informative_relay_item:
  "\<forall>c\<in>set cs. informative_call c \<Longrightarrow> relay_item i cs its = (out, final, thrown) \<Longrightarrow>
     \<forall>c\<in>set out. informative_call c"
proof (induction i cs its arbitrary: out final thrown rule: relay_item.induct)
  case (1 index items')
  then show ?case by simp
next
  case (2 index newItemValue cs items')
  then show ?case
    by (auto simp del: informative_call.simps simp: informative_call.simps(1) itemUpdate_def
        Let_def split: sum.splits prod.splits)
next
  case (3 index code context' cs items')
  then show ?case
    by (auto simp del: informative_call.simps split: sum.splits prod.splits
        dest: informative_itemError)
qed

lemma informative_items_loop:
  "\<forall>h\<in>set fns. informative h \<Longrightarrow> \<forall>c\<in>set acc. informative_call c \<Longrightarrow>
     \<forall>c\<in>set (sync_calls (items_loop fns its index acc)). informative_call c"
proof (induction fns its index acc rule: items_loop.induct)
  case (1 fns items' index acc)
  show ?case
  proof (cases "js_prop items' ''length''")
    case (Inl f)
    then show ?thesis
      using "1.prems"(2) by (subst items_loop.simps) simp
  next
    case len: (Inr len)
    show ?thesis
    proof (cases "index_less index len")
      case False
      then show ?thesis
        using "1.prems"(2) len by (subst items_loop.simps) simp
    next
      case less: True
      show ?thesis
      proof (cases "js_index items' index")
        case (Inl f)
        then show ?thesis
          using "1.prems"(2) len less by (subst items_loop.simps) simp
      next
        case item: (Inr item)
        obtain out final thrown
          where rel: "relay_item index (sync_calls (handler fns item)) items' = (out, final, thrown)"
          by (cases "relay_item index (sync_calls (handler fns item)) items'") auto
        have "\<forall>c\<in>set (sync_calls (handler fns item)). informative_call c"
          using informative_handler [OF "1.prems"(1)] unfolding informative_def by blast
        from informative_relay_item [OF this rel] "1.prems"(2)
        have ok: "\<forall>c\<in>set (acc @ out). informative_call c"
          by auto
        show ?thesis
        proof (cases thrown)
          case (Some g)
          then show ?thesis
            using ok len less item rel by (subst items_loop.simps) simp
        next
          case None
          show ?thesis
          proof (cases "handler fns item")
            case (Returns cs)
            have "items_loop fns items' index acc = items_loop fns final (Suc index) (acc @ out)"
              using len less item rel None Returns by (subst items_loop.simps) simp
            then show ?thesis
              using "1.IH"(1) [OF len less item rel [symmetric] refl None Returns "1.prems"(1) ok]
              by simp
          next
            case (Throws cs f)
            then show ?thesis
              using ok len less item rel None by (subst items_loop.simps) simp
          next
            case (Awaits pre post f)
            have "items_loop fns items' index acc = items_loop fns final (Suc index) (acc @ out)"
              using len less item rel None Awaits by (subst items_loop.simps) simp
            then show ?thesis
              using "1.IH"(2) [OF len less item rel [symmetric] refl None Awaits "1.prems"(1) ok]
              by simp
          qed
        qed
      qed
    qed
  qed
qed

lemma informative_items:
  "\<forall>h\<in>set fns. informative h \<Longrightarrow> informative (items fns)"
  using informative_items_loop [of fns "[]"] by (simp add: informative_def items_def)


section \<open>Invocations on the heap\<close>

lemma fold_perform_in:
  "a < length h \<Longrightarrow>
     fold (perform_in a) cs (v, h) =
       (fst (fold perform cs (v, h ! a)), h[a := snd (fold perform cs (v, h ! a))])"
proof (induction cs arbitrary: v h)
  case Nil
  then show ?case by simp
next
  case (Cons c cs)
  then show ?case by (cases c) simp_all
qed

lemma run_handlers_in_sim:
  "a < length h \<Longrightarrow>
     run_handlers_in a fns (v, h) =
       (case run_handlers fns (v, h ! a) of
          Inl f \<Rightarrow> (Inl f, snd (run_handlers_in a fns (v, h)))
        | Inr s \<Rightarrow> (Inr (fst s), h[a := snd s]))"
proof (induction fns arbitrary: v h)
  case Nil
  then show ?case by simp
next
  case (Cons fn fns)
  show ?case
  proof (cases "fn v")
    case (Returns cs)
    with Cons.prems Cons.IH [of "h[a := snd (fold perform cs (v, h ! a))]"
        "fst (fold perform cs (v, h ! a))"]
    show ?thesis by (simp add: fold_perform_in split: sum.splits)
  next
    case (Throws cs f)
    then show ?thesis by simp
  next
    case (Awaits pre post f)
    with Cons.prems Cons.IH [of "h[a := snd (fold perform pre (v, h ! a))]"
        "fst (fold perform pre (v, h ! a))"]
    show ?thesis by (simp add: fold_perform_in split: sum.splits)
  qed
qed

lemma run_handlers_in_frame:
  "a < length h \<Longrightarrow> run_handlers_in a fns (v, h) = (out, h') \<Longrightarrow>
     length h' = length h \<and> (\<forall>b. b \<noteq> a \<longrightarrow> h' ! b = h ! b)"
proof (induction fns arbitrary: v h)
  case Nil
  then show ?case by auto
next
  case (Cons fn fns)
  show ?case
  proof (cases "fn v")
    case (Returns cs)
    with Cons.prems Cons.IH [of "h[a := snd (fold perform cs (v, h ! a))]"
        "fst (fold perform cs (v, h ! a))"]
    show ?thesis by (simp add: fold_perform_in)
  next
    case (Throws cs f)
    with Cons.prems show ?thesis by (auto simp: fold_perform_in)
  next
    case (Awaits pre post f)
    with Cons.prems Cons.IH [of "h[a := snd (fold perform pre (v, h ! a))]"
        "fst (fold perform pre (v, h ! a))"]
    show ?thesis by (simp add: fold_perform_in)
  qed
qed

lemma validate_in_returns:
  assumes "validate fns input = Inr r"
  shows "validate_in fns input h =
     (Inr \<lparr>value = value r, valid = valid r, errors_at = length h\<rparr>, h @ [errors r])"
proof -
  obtain s where run: "run_handlers fns (input, []) = Inr s" and r: "r = assemble s"
    using assms by (auto simp: validate_run)
  have "run_handlers_in (length h) fns (input, h @ [[]]) =
      (Inr (fst s), (h @ [[]])[length h := snd s])"
    using run_handlers_in_sim [of "length h" "h @ [[]]" fns input] run by simp
  then show ?thesis
    using r by (simp add: validate_in_def assemble_def)
qed

lemma validate_in_throws:
  assumes "validate fns input = Inl f"
  shows "\<exists>partial. validate_in fns input h = (Inl f, h @ [partial])"
proof -
  have run: "run_handlers fns (input, []) = Inl f"
    using assms by (auto simp: validate_def execValidationPipeline_def split: sum.splits)
  obtain out h' where out: "run_handlers_in (length h) fns (input, h @ [[]]) = (out, h')"
    by (cases "run_handlers_in (length h) fns (input, h @ [[]])") auto
  from run_handlers_in_sim [of "length h" "h @ [[]]" fns input] run out
  have "out = Inl f" by simp
  moreover from run_handlers_in_frame [OF _ out]
  have len: "length h' = Suc (length h)" and same: "\<forall>b. b \<noteq> length h \<longrightarrow> h' ! b = (h @ [[]]) ! b"
    by simp_all
  have "h' = h @ [h' ! length h]"
  proof (rule nth_equalityI)
    show "length h' = length (h @ [h' ! length h])" using len by simp
  next
    fix i assume "i < length h'"
    then show "h' ! i = (h @ [h' ! length h]) ! i"
      using same len by (cases "i = length h") (auto simp: nth_append)
  qed
  ultimately show ?thesis
    using out by (auto simp: validate_in_def)
qed

section \<open>When validate returns\<close>

lemma validate_returns:
  "\<forall>h\<in>set fns. \<forall>v. \<forall>cs f. h v \<noteq> Throws cs f \<Longrightarrow> \<exists>r. validate fns input = Inr r"
proof -
  have "\<forall>h\<in>set fns. \<forall>v. \<forall>cs f. h v \<noteq> Throws cs f \<Longrightarrow> \<exists>s'. run_handlers fns s = Inr s'" for s
  proof (induction fns arbitrary: s)
    case Nil
    then show ?case by simp
  next
    case (Cons fn fns)
    then show ?case by (cases "fn (fst s)") auto
  qed
  then show "\<forall>h\<in>set fns. \<forall>v. \<forall>cs f. h v \<noteq> Throws cs f \<Longrightarrow> \<exists>r. validate fns input = Inr r"
    by (simp add: validate_def execValidationPipeline_def split: sum.splits) (metis sum.distinct(1) sumE)
qed

section \<open>Validity and the error list\<close>

text \<open>
  C1. Whatever the handlers and the input, a result of \<^verbatim>\<open>validate\<close> has \<^verbatim>\<open>valid\<close> true
  exactly when its \<^verbatim>\<open>errors\<close> array is empty, and that is exactly when no handler called
  \<^verbatim>\<open>error\<close> during the invocation: with no call of \<^verbatim>\<open>error\<close> the result is valid and has
  no errors, and any call of \<^verbatim>\<open>error\<close> makes it invalid.
\<close>

theorem valid_iff_no_errors:
  assumes "validate fns input = Inr r"
  shows "(valid r \<longleftrightarrow> errors r = []) \<and>
         (valid r \<longleftrightarrow> (\<forall>c x. Error c x \<notin> set (calls_made fns input)))"
  using validate_calls(2,3) [OF assms] by (simp add: errors_of_empty)

theorem valid_iff_no_errors_witness:
  "validate [required] Null =
     Inr \<lparr>value = Null, valid = False,
          errors = [make_error (Str ''required'')
                      (Obj (fmupd ''value'' Null
                              (fmupd ''message'' (Str ''value is required'') fmempty)))]\<rparr> \<and>
   calls_made [required] Null =
     [Error (Str ''required'')
        (Obj (fmupd ''value'' Null (fmupd ''message'' (Str ''value is required'') fmempty)))] \<and>
   validate [required] (Num 42) = Inr \<lparr>value = Num 42, valid = True, errors = []\<rparr> \<and>
   calls_made [required] (Num 42) = []"
proof -
  let ?e = "Error (Str ''required'')
     (Obj (fmupd ''value'' Null (fmupd ''message'' (Str ''value is required'') fmempty)))"
  have bad: "validate [required] Null =
      Inr \<lparr>value = Null, valid = False, errors = errors_of [?e]\<rparr>"
    by (simp add: validate_def execValidationPipeline_def assemble_def required_def)
  have good: "validate [required] (Num 42) = Inr \<lparr>value = Num 42, valid = True, errors = []\<rparr>"
    by (simp add: validate_def execValidationPipeline_def assemble_def required_def)
  have "calls_made [required] Null = [?e]"
    using valid_iff_no_errors [OF bad]
    by (simp add: calls_made_def invocations_def required_def)
  moreover have "calls_made [required] (Num 42) = []"
    using valid_iff_no_errors [OF good]
    by (simp add: calls_made_def invocations_def required_def)
  ultimately show ?thesis using bad good by simp
qed

section \<open>Transformations survive a failed validation\<close>

text \<open>
  C2. Whatever the handlers and the input, the \<^verbatim>\<open>value\<close> that \<^verbatim>\<open>validate\<close> returns is the
  argument of the last call of \<^verbatim>\<open>update\<close> made during the invocation (the input when
  there was none), whether or not \<^verbatim>\<open>error\<close> was called before or after it: a pipeline
  that transforms the value and reports errors returns the transformed value with
  \<^verbatim>\<open>valid\<close> false. And \<^verbatim>\<open>validate\<close> does return a result when no handler of the list
  throws.
\<close>

theorem value_is_last_update:
  "(validate fns input = Inr r \<longrightarrow>
      value r = last (input # updates_of (calls_made fns input))) \<and>
   ((\<forall>h\<in>set fns. \<forall>v cs f. h v \<noteq> Throws cs f) \<longrightarrow> (\<exists>r. validate fns input = Inr r))"
  using validate_calls(1) [of fns input r] validate_returns [of fns input] by blast

theorem value_is_last_update_witness:
  "validate [mapAdapter (\<lambda>v. Null), required] (Num 42) =
     Inr \<lparr>value = Null, valid = False,
          errors = [make_error (Str ''required'')
                      (Obj (fmupd ''value'' Null
                              (fmupd ''message'' (Str ''value is required'') fmempty)))]\<rparr> \<and>
   last (Num 42 # updates_of (calls_made [mapAdapter (\<lambda>v. Null), required] (Num 42))) = Null"
proof -
  let ?fns = "[mapAdapter (\<lambda>v. Null), required]"
  let ?r = "\<lparr>value = Null, valid = False,
          errors = [make_error (Str ''required'')
                      (Obj (fmupd ''value'' Null
                              (fmupd ''message'' (Str ''value is required'') fmempty)))]\<rparr>"
  have run: "validate ?fns (Num 42) = Inr ?r"
    by (simp add: validate_def execValidationPipeline_def assemble_def required_def
        mapAdapter_def)
  with value_is_last_update [of ?fns "Num 42" ?r]
  have "value ?r = last (Num 42 # updates_of (calls_made ?fns (Num 42)))"
    by blast
  then have "last (Num 42 # updates_of (calls_made ?fns (Num 42))) = Null"
    by (simp del: last.simps)
  with run show ?thesis by blast
qed

section \<open>No short circuit\<close>




section \<open>Paths under key\<close>

text \<open>
  C4. Whatever the name, the nested handlers and the value, every call of \<^verbatim>\<open>error\<close> that
  the handler \<^verbatim>\<open>key(name, ...fns)\<close> makes yields, in the pipeline that runs it, an error
  record whose \<^verbatim>\<open>path\<close> is an array with \<open>name\<close> as its first element. So every error in
  the result of a schema whose step is \<^verbatim>\<open>key(name, ...fns)\<close> has such a path, and with
  \<^verbatim>\<open>key(a, key(b, ...fns))\<close> the path begins with \<open>a\<close>, then \<open>b\<close>: each enclosing level puts
  its own segment in front.
\<close>

theorem key_paths:
  "(Error c x \<in> set (sync_calls (key name fns v)) \<longrightarrow>
      (\<exists>rest. fmlookup (make_error c x) ''path'' = Some (Arr (Str name # rest)))) \<and>
   (validate [key name fns] v = Inr r \<longrightarrow>
      (\<forall>e\<in>set (errors r). \<exists>rest. fmlookup e ''path'' = Some (Arr (Str name # rest)))) \<and>
   (validate [key a [key b fns]] v = Inr r \<longrightarrow>
      (\<forall>e\<in>set (errors r). \<exists>rest. fmlookup e ''path'' = Some (Arr (Str a # Str b # rest))))"
proof (intro conjI impI ballI)
  assume "Error c x \<in> set (sync_calls (key name fns v))"
  then show "\<exists>rest. fmlookup (make_error c x) ''path'' = Some (Arr (Str name # rest))"
    by (rule key_call_path)
next
  fix e
  assume run: "validate [key name fns] v = Inr r" and e: "e \<in> set (errors r)"
  from validate_key_errors [OF run] obtain r0 :: result
    where "errors r = map (prepend_path (Str name)) (errors r0)"
    by blast
  with e obtain e0 where "e = prepend_path (Str name) e0"
    by auto
  then show "\<exists>rest. fmlookup e ''path'' = Some (Arr (Str name # rest))"
    using prepend_path_lookup [of "Str name" e0] by simp
next
  fix e
  assume outer: "validate [key a [key b fns]] v = Inr r" and e: "e \<in> set (errors r)"
  from validate_key_errors [OF outer] obtain input r'
    where r': "validate [key b fns] input = Inr r'"
      and r: "errors r = map (prepend_path (Str a)) (errors r')"
    by blast
  from r e obtain e' where e': "e' \<in> set (errors r')" and ee': "e = prepend_path (Str a) e'"
    by auto
  from validate_key_errors [OF r'] obtain r'' :: result
    where "errors r' = map (prepend_path (Str b)) (errors r'')"
    by blast
  with e' obtain e'' where "e' = prepend_path (Str b) e''"
    by auto
  then obtain rest where "fmlookup e' ''path'' = Some (Arr (Str b # rest))"
    using prepend_path_lookup [of "Str b" e''] by auto
  then show "\<exists>rest. fmlookup e ''path'' = Some (Arr (Str a # Str b # rest))"
    using ee' prepend_path_nested by blast
qed

theorem key_paths_witness:
  "(\<exists>r. validate [key ''foo'' [required]] (Obj (fmupd ''foo'' Null fmempty)) = Inr r \<and>
        map (\<lambda>e. fmlookup e ''path'') (errors r) = [Some (Arr [Str ''foo''])]) \<and>
   (\<exists>r. validate [key ''name'' [key ''first'' [required]]]
          (Obj (fmupd ''name'' (Obj (fmupd ''first'' Null fmempty)) fmempty)) = Inr r \<and>
        value r = Obj (fmupd ''name'' (Obj (fmupd ''first'' Null fmempty)) fmempty) \<and>
        \<not> valid r \<and>
        map (\<lambda>e. fmlookup e ''code'') (errors r) = [Some (Str ''required'')] \<and>
        map (\<lambda>e. fmlookup e ''path'') (errors r) = [Some (Arr [Str ''name'', Str ''first''])])"
  using key_paths [where name = "''foo''" and fns = "[required]"
      and v = "Obj (fmupd ''foo'' Null fmempty)"]
    key_paths [where a = "''name''" and b = "''first''" and fns = "[required]"
      and v = "Obj (fmupd ''name'' (Obj (fmupd ''first'' Null fmempty)) fmempty)"]
  by (simp add: validate_def execValidationPipeline_def assemble_def required_def key_def
      handler_def keyUpdate_def keyError_def forward_error_def make_error_def own_def js_or_def
      fmdrop_fmupd)

section \<open>Items, left to right\<close>

lemma items_upto_results:
  assumes "k \<le> length xs"
    and "\<forall>i<k. validate fns (xs ! i) = Inr (res (xs ! i))"
    and "k < length xs \<longrightarrow> validate fns (xs ! k) = Inl f"
  shows "errors_of (sync_calls (items fns (Arr xs))) =
            concat (map (\<lambda>i. map (prepend_path (Num (int i))) (errors (res (xs ! i)))) [0..<k]) \<and>
         (\<forall>i<k. \<forall>e\<in>set (errors (res (xs ! i))).
            \<exists>rest. fmlookup (prepend_path (Num (int i)) e) ''path'' =
              Some (Arr (Num (int i) # rest))) \<and>
         updates_of (sync_calls (items fns (Arr xs))) =
            map (\<lambda>i. Arr (map (\<lambda>x. value (res x)) (take (Suc i) xs) @ drop (Suc i) xs)) [0..<k] \<and>
         (k = length xs \<longrightarrow>
            (\<exists>r. validate [items fns] (Arr xs) = Inr r \<and>
                 value r = Arr (map (\<lambda>x. value (res x)) xs) \<and>
                 errors r = errors_of (sync_calls (items fns (Arr xs))))) \<and>
         (k < length xs \<longrightarrow> validate [items fns] (Arr xs) = Inl f)"
proof -
  let ?f = "\<lambda>x. value (res x)"
  let ?calls = "concat (map (\<lambda>i. item_calls i (res (xs ! i)) (snapshot ?f xs (Suc i))) [0..<k])"
  have calls: "items fns (Arr xs) = (if k = length xs then Returns ?calls else Throws ?calls f)"
    using items_upto [OF assms] .
  then have sync: "sync_calls (items fns (Arr xs)) = ?calls"
    by simp
  have ups: "updates_of ?calls = map (\<lambda>i. Arr (snapshot ?f xs (Suc i))) [0..<k]"
    by (simp add: updates_of_concat comp_def updates_of_item_calls)
  have shape: "\<forall>e\<in>set (errors (res (xs ! i))). fmlookup e ''code'' \<noteq> None" if "i < k" for i
    using validate_errors_shape [of fns "xs ! i" "res (xs ! i)"] assms(2) that by simp
  have errs: "errors_of ?calls =
      concat (map (\<lambda>i. map (prepend_path (Num (int i))) (errors (res (xs ! i)))) [0..<k])"
  proof -
    have eq: "errors_of (item_calls i (res (xs ! i)) after) =
        map (prepend_path (Num (int i))) (errors (res (xs ! i)))" if "i < k" for i after
      using errors_of_item_calls shape [OF that] by blast
    have "map (\<lambda>i. errors_of (item_calls i (res (xs ! i)) (snapshot ?f xs (Suc i)))) [0..<k] =
        map (\<lambda>i. map (prepend_path (Num (int i))) (errors (res (xs ! i)))) [0..<k]"
      by (rule map_cong [OF refl]) (simp add: eq)
    then have "concat (map (\<lambda>i. errors_of (item_calls i (res (xs ! i)) (snapshot ?f xs (Suc i))))
          [0..<k]) =
        concat (map (\<lambda>i. map (prepend_path (Num (int i))) (errors (res (xs ! i)))) [0..<k])"
      by (rule arg_cong)
    then show ?thesis
      unfolding errors_of_concat map_map comp_def .
  qed
  have first: "errors_of (sync_calls (items fns (Arr xs))) =
      concat (map (\<lambda>i. map (prepend_path (Num (int i))) (errors (res (xs ! i)))) [0..<k])"
    using errs sync by simp
  have third: "updates_of (sync_calls (items fns (Arr xs))) =
      map (\<lambda>i. Arr (map ?f (take (Suc i) xs) @ drop (Suc i) xs)) [0..<k]"
    using ups sync by (simp add: snapshot_def)
  have fourth: "\<exists>r. validate [items fns] (Arr xs) = Inr r \<and> value r = Arr (map ?f xs) \<and>
      errors r = errors_of (sync_calls (items fns (Arr xs)))" if all: "k = length xs"
  proof -
    have final: "last (Arr xs # map (\<lambda>i. Arr (snapshot ?f xs (Suc i))) [0..<k]) = Arr (map ?f xs)"
    proof (cases "xs = []")
      case True
      then show ?thesis using all by simp
    next
      case False
      then have "last (map (\<lambda>i. Arr (snapshot ?f xs (Suc i))) [0..<length xs]) =
          Arr (snapshot ?f xs (Suc (length xs - 1)))"
        by (simp add: last_map)
      then show ?thesis using False all by (simp add: snapshot_all)
    qed
    have run: "validate [items fns] (Arr xs) = Inr (assemble (fold perform ?calls (Arr xs, [])))"
      using all by (simp add: validate_single calls)
    have "fst (fold perform ?calls (Arr xs, [])) = Arr (map ?f xs)"
      using final by (simp only: fst_fold_perform fst_conv ups)
    moreover have "snd (fold perform ?calls (Arr xs, [])) = errors_of ?calls"
      by (simp add: snd_fold_perform)
    ultimately show ?thesis
      using run sync by (simp add: assemble_def)
  qed
  have fifth: "validate [items fns] (Arr xs) = Inl f" if "k < length xs"
    using that by (simp add: validate_single calls)
  show ?thesis
    using first third fourth fifth prepend_path_lookup by blast
qed

lemma reached_le: "reached fns xs \<le> length xs"
  by (simp add: reached_def length_takeWhile_le)

lemma reached_returns:
  "i < reached fns xs \<Longrightarrow> validate fns (xs ! i) = Inr (nested_result fns (xs ! i))"
proof -
  assume i: "i < reached fns xs"
  then have "takeWhile (returns_on fns) xs ! i \<in> set (takeWhile (returns_on fns) xs)"
    by (simp add: reached_def)
  then have "returns_on fns (takeWhile (returns_on fns) xs ! i)"
    by (rule set_takeWhileD [THEN conjunct2])
  then have "returns_on fns (xs ! i)"
    using i by (simp add: reached_def takeWhile_nth)
  then show ?thesis
    by (simp add: returns_on_def nested_result_def split: sum.splits)
qed

lemma reached_throws:
  "reached fns xs < length xs \<Longrightarrow> \<exists>f. validate fns (xs ! reached fns xs) = Inl f"
  using nth_length_takeWhile [of "returns_on fns" xs]
  by (auto simp: reached_def returns_on_def split: sum.splits)

text \<open>
  C5. For every handler list and every input array \<open>xs\<close>, let \<open>k\<close> be the number of
  leading elements on which the nested schema of \<^verbatim>\<open>items(...fns)\<close> returns: the length of
  \<open>xs\<close>, or the index of the first element on which the nested schema throws. The errors
  that \<^verbatim>\<open>items\<close> reports are, index by index in increasing order, the nested errors of
  the element at that index with the index put in front of the path: every error arising
  at index \<open>i\<close> has a path beginning with \<open>i\<close>. The sequence handed to \<^verbatim>\<open>update\<close> at
  index \<open>i\<close> has the elements up to \<open>i\<close> replaced by their nested values and all later
  elements as they were in the input: an update at an index is kept at every later index
  and changes no other element. When the nested schema returns on every element, the
  schema with the step \<^verbatim>\<open>items(...fns)\<close> returns the array of the nested values with
  exactly these errors; when it throws at index \<open>k\<close>, the schema throws the same fault.
\<close>

theorem items_left_to_right:
  "errors_of (sync_calls (items fns (Arr xs))) =
      concat (map (\<lambda>i. map (prepend_path (Num (int i))) (errors (nested_result fns (xs ! i))))
        [0..<reached fns xs]) \<and>
   (\<forall>i<reached fns xs.
      validate fns (xs ! i) = Inr (nested_result fns (xs ! i)) \<and>
      (\<forall>e\<in>set (errors (nested_result fns (xs ! i))).
         \<exists>rest. fmlookup (prepend_path (Num (int i)) e) ''path'' =
           Some (Arr (Num (int i) # rest)))) \<and>
   updates_of (sync_calls (items fns (Arr xs))) =
      map (\<lambda>i. Arr (map (\<lambda>x. value (nested_result fns x)) (take (Suc i) xs) @ drop (Suc i) xs))
        [0..<reached fns xs] \<and>
   reached fns xs \<le> length xs \<and>
   (reached fns xs = length xs \<longrightarrow>
      (\<exists>r. validate [items fns] (Arr xs) = Inr r \<and>
           value r = Arr (map (\<lambda>x. value (nested_result fns x)) xs) \<and>
           errors r = errors_of (sync_calls (items fns (Arr xs))))) \<and>
   (reached fns xs < length xs \<longrightarrow>
      (\<exists>f. validate fns (xs ! reached fns xs) = Inl f \<and>
           validate [items fns] (Arr xs) = Inl f))"
proof -
  obtain f where stop: "reached fns xs < length xs \<longrightarrow> validate fns (xs ! reached fns xs) = Inl f"
    using reached_throws [of fns xs] by blast
  have each: "\<forall>i<reached fns xs. validate fns (xs ! i) = Inr (nested_result fns (xs ! i))"
    using reached_returns by blast
  from items_upto_results [OF reached_le each stop] each stop reached_le [of fns xs]
  show ?thesis
    by blast
qed

theorem items_left_to_right_witness:
  "reached [required, mapAdapter (\<lambda>v. Str ''x'')] [Null, Num 2] = 2 \<and>
   validate [required, mapAdapter (\<lambda>v. Str ''x'')] Null =
     Inr \<lparr>value = Str ''x'', valid = False,
          errors = [make_error (Str ''required'')
             (Obj (fmupd ''value'' Null (fmupd ''message'' (Str ''value is required'') fmempty)))]\<rparr> \<and>
   validate [required, mapAdapter (\<lambda>v. Str ''x'')] (Num 2) =
     Inr \<lparr>value = Str ''x'', valid = True, errors = []\<rparr> \<and>
   (\<exists>r. validate [items [required, mapAdapter (\<lambda>v. Str ''x'')]] (Arr [Null, Num 2]) = Inr r \<and>
        value r = Arr [Str ''x'', Str ''x''] \<and>
        map (\<lambda>e. fmlookup e ''path'') (errors r) = [Some (Arr [Num 0])]) \<and>
   updates_of (sync_calls (items [required, mapAdapter (\<lambda>v. Str ''x'')] (Arr [Null, Num 2]))) =
     [Arr [Str ''x'', Num 2], Arr [Str ''x'', Str ''x'']]"
proof -
  let ?fns = "[required, mapAdapter (\<lambda>v. Str ''x'')]"
  let ?xs = "[Null, Num 2]"
  have first: "validate ?fns Null =
     Inr \<lparr>value = Str ''x'', valid = False,
          errors = [make_error (Str ''required'')
             (Obj (fmupd ''value'' Null (fmupd ''message'' (Str ''value is required'') fmempty)))]\<rparr>"
    by (simp add: validate_def execValidationPipeline_def assemble_def required_def mapAdapter_def)
  have second: "validate ?fns (Num 2) = Inr \<lparr>value = Str ''x'', valid = True, errors = []\<rparr>"
    by (simp add: validate_def execValidationPipeline_def assemble_def required_def mapAdapter_def)
  have k: "reached ?fns ?xs = 2"
    by (simp add: reached_def returns_on_def first second)
  have upt: "[0..<2] = [0, Suc 0]"
    by (simp add: upt_rec)
  from items_left_to_right [of ?fns ?xs] obtain r :: result
    where "validate [items ?fns] (Arr ?xs) = Inr r"
      and "value r = Arr (map (\<lambda>x. value (nested_result ?fns x)) ?xs)"
      and "errors r = errors_of (sync_calls (items ?fns (Arr ?xs)))"
      and "errors_of (sync_calls (items ?fns (Arr ?xs))) =
            concat (map (\<lambda>i. map (prepend_path (Num (int i))) (errors (nested_result ?fns (?xs ! i))))
              [0..<2])"
      and "updates_of (sync_calls (items ?fns (Arr ?xs))) =
            map (\<lambda>i. Arr (map (\<lambda>x. value (nested_result ?fns x)) (take (Suc i) ?xs) @ drop (Suc i) ?xs))
              [0..<2]"
    unfolding k by auto
  then show ?thesis
    using first second k
    by (simp add: upt nested_result_def prepend_path_def make_error_def own_def js_or_def)
qed

section \<open>A schema inside a schema\<close>

text \<open>
  C10. For every handler list and every input, the schema whose only step is the schema
  of \<open>fns\<close> returns what the schema of \<open>fns\<close> returns (or throws what it throws): the
  step hands on every inner error with its code, path and other fields unchanged and
  then the inner final value.
\<close>

theorem schema_of_schema:
  "validate [handler fns] input = validate fns input"
proof (cases "validate fns input")
  case (Inl f)
  then show ?thesis by (simp add: validate_single handler_def)
next
  case (Inr r)
  have shape: "\<forall>e\<in>set (errors r). fmlookup e ''code'' \<noteq> None \<and> fmlookup e ''path'' \<noteq> None"
    using validate_errors_shape [OF Inr] by blast
  have "validate [handler fns] input =
      Inr \<lparr>value = value r, valid = (errors r = []), errors = errors r\<rparr>"
    by (simp add: validate_single handler_def Inr fold_perform_pair updates_of_append
        errors_of_append updates_of_forward errors_of_forward [OF shape] assemble_def)
  also have "\<dots> = Inr r"
    using validate_calls(3) [OF Inr] by simp
  finally show ?thesis using Inr by simp
qed

section \<open>The two execution modes\<close>




section \<open>Asserting\<close>




section \<open>Populated errors\<close>

text \<open>
  C8, as the code has it. For every handler list whose handlers make informative calls
  only (a non-empty string code, and a context object with a string message, no code and
  no path other than an array), every error of a result of \<^verbatim>\<open>validate\<close> has its code, its
  path and its message populated. The pipeline itself supplies the code and the default
  path; the message comes from the context alone.
\<close>

theorem errors_populated:
  assumes "\<forall>h\<in>set fns. informative h" and "validate fns input = Inr r"
  shows "\<forall>e\<in>set (errors r). populated e"
proof
  fix e
  assume "e \<in> set (errors r)"
  then obtain c x where cx: "Error c x \<in> set (calls_made fns input)" and e: "e = make_error c x"
    using validate_calls(2) [OF assms(2)] by (auto simp: set_errors_of)
  from calls_made_handlers [OF cx] obtain h v
    where "h \<in> set fns" and "Error c x \<in> set (sync_calls (h v))"
    by blast
  with assms(1) have "informative_call (Error c x)"
    unfolding informative_def by blast
  then show "populated e"
    using e by (simp add: populated_make_error)
qed

theorem errors_populated_witness:
  "informative required \<and> informative (key ''foo'' [required]) \<and>
   (\<exists>r. validate [required, key ''foo'' [required]] (Obj (fmupd ''foo'' Null fmempty)) = Inr r \<and>
        map (\<lambda>e. fmlookup e ''path'') (errors r) = [Some (Arr [Str ''foo''])] \<and>
        map (\<lambda>e. fmlookup e ''code'') (errors r) = [Some (Str ''required'')] \<and>
        map (\<lambda>e. fmlookup e ''message'') (errors r) = [Some (Str ''value is required'')] \<and>
        list_all populated (errors r))"
proof -
  let ?v = "Obj (fmupd ''foo'' Null fmempty)"
  let ?e = "fmupd ''path'' (Arr [Str ''foo''])
             (fmupd ''value'' Null
               (fmupd ''message'' (Str ''value is required'')
                 (fmupd ''path'' (Arr [])
                   (fmupd ''code'' (Str ''required'') fmempty))))"
  have leaf: "informative required"
    by (simp add: informative_def required_def)
  then have nested: "informative (key ''foo'' [required])"
    using informative_key [of "[required]" "''foo''"] by simp
  have run: "validate [required, key ''foo'' [required]] ?v =
      Inr \<lparr>value = ?v, valid = False, errors = [?e]\<rparr>"
    by (simp add: validate_def execValidationPipeline_def assemble_def required_def key_def
      handler_def keyUpdate_def keyError_def forward_error_def make_error_def own_def js_or_def
      fmdrop_fmupd)
  have "\<forall>h\<in>set [required, key ''foo'' [required]]. informative h"
    using leaf nested by simp
  from errors_populated [OF this run] leaf nested run show ?thesis
    by simp
qed

text \<open>
  The counterexample to C8 as stated: a handler that calls \<^verbatim>\<open>error\<close> with a non-empty
  code and an empty context object obeys the contract as worded, and the error returned
  has no message.
\<close>

theorem message_missing_counterexample:
  "obeys_contract bare_error \<and>
   validate [bare_error] Null =
     Inr \<lparr>value = Null, valid = False,
          errors = [fmupd ''path'' (Arr []) (fmupd ''code'' (Str ''bad'') fmempty)]\<rparr> \<and>
   fmlookup (fmupd ''path'' (Arr []) (fmupd ''code'' (Str ''bad'') fmempty)) ''message'' = None \<and>
   \<not> populated (fmupd ''path'' (Arr []) (fmupd ''code'' (Str ''bad'') fmempty))"
  by (simp add: obeys_contract_def bare_error_def validate_def execValidationPipeline_def
      assemble_def make_error_def populated_def)

section \<open>Invoking a schema twice\<close>

text \<open>
  C9. Two invocations of \<^verbatim>\<open>validate\<close> on the same schema with the same input, the second
  on any heap that holds at least the arrays the first one left (whatever has been done
  to them in between): both return, with the same value, the same \<^verbatim>\<open>valid\<close> and equal
  errors, or both throw the same fault. The second invocation collects its errors in an
  array of its own, created by it, and leaves every array that existed before unchanged;
  what the two return is what \<^verbatim>\<open>validate\<close> returns for that input.
\<close>

theorem validate_twice:
  assumes "validate_in fns input h = (first, h1)"
    and "length h1 \<le> length h'"
    and "validate_in fns input h' = (second, h2)"
  shows "case (first, second) of
           (Inr r1, Inr r2) \<Rightarrow>
             value r2 = value r1 \<and> valid r2 = valid r1 \<and>
             h2 ! errors_at r2 = h1 ! errors_at r1 \<and>
             errors_at r2 \<noteq> errors_at r1 \<and>
             take (length h') h2 = h' \<and>
             validate fns input =
               Inr \<lparr>value = value r1, valid = valid r1, errors = h1 ! errors_at r1\<rparr>
         | (Inl f1, Inl f2) \<Rightarrow> f2 = f1 \<and> take (length h') h2 = h' \<and> validate fns input = Inl f1
         | _ \<Rightarrow> False"
proof (cases "validate fns input")
  case (Inl f)
  from validate_in_throws [OF Inl, of h] validate_in_throws [OF Inl, of h'] assms
  show ?thesis using Inl by auto
next
  case (Inr r)
  from validate_in_returns [OF Inr, of h] validate_in_returns [OF Inr, of h'] assms
  show ?thesis using Inr by (auto simp: nth_append)
qed

theorem validate_twice_witness:
  "validate_in [required] Null [] =
     (Inr \<lparr>value = Null, valid = False, errors_at = 0\<rparr>,
      [[make_error (Str ''required'')
          (Obj (fmupd ''value'' Null (fmupd ''message'' (Str ''value is required'') fmempty)))]]) \<and>
   validate_in [required] Null [[]] =
     (Inr \<lparr>value = Null, valid = False, errors_at = 1\<rparr>,
      [[], [make_error (Str ''required'')
          (Obj (fmupd ''value'' Null (fmupd ''message'' (Str ''value is required'') fmempty)))]]) \<and>
   validate [required] Null =
     Inr \<lparr>value = Null, valid = False,
          errors = [make_error (Str ''required'')
             (Obj (fmupd ''value'' Null (fmupd ''message'' (Str ''value is required'') fmempty)))]\<rparr>"
proof -
  let ?e = "make_error (Str ''required'')
          (Obj (fmupd ''value'' Null (fmupd ''message'' (Str ''value is required'') fmempty)))"
  have one: "validate_in [required] Null [] =
     (Inr \<lparr>value = Null, valid = False, errors_at = 0\<rparr>, [[?e]])"
    by (simp add: validate_in_def required_def)
  have two: "validate_in [required] Null [[]] =
     (Inr \<lparr>value = Null, valid = False, errors_at = 1\<rparr>, [[], [?e]])"
    by (simp add: validate_in_def required_def)
  have "length [[?e]] \<le> length [[] :: obj list]"
    by simp
  from validate_twice [OF one this two] one two show ?thesis by simp
qed

end
